theory Spec2Isabelle
  imports Main "HOL-Library.Sublist"
begin

section \<open>The line-count checker \<^verbatim>\<open>instructions/check_file_length.py\<close>\<close>

text \<open>
  The script walks over \<^verbatim>\<open>sys.argv[1:]\<close>, skips every path that does not end in
  \<^verbatim>\<open>.py\<close>, counts the lines of the others, collects the files with more than 300
  lines and prints a report. Its effects are made explicit: the file system it reads, the
  text it writes to standard output and the log of the paths it has passed to
  \<^verbatim>\<open>open\<close> form a record that every operation takes and returns.
\<close>

subsection \<open>Strings, files and the world\<close>

type_synonym path = string

abbreviation LF :: char where "LF \<equiv> CHR 0x0A"
abbreviation CR :: char where "CR \<equiv> CHR 0x0D"

text \<open>
  What \<^verbatim>\<open>except Exception as e\<close> binds: an instance of \<^verbatim>\<open>Exception\<close>, of which the
  script uses \<^verbatim>\<open>str(e)\<close> only. Opening a file and iterating over it raise instances of
  \<^verbatim>\<open>Exception\<close> (\<^verbatim>\<open>OSError\<close>, \<^verbatim>\<open>UnicodeDecodeError\<close>, \<^verbatim>\<open>ValueError\<close>, ...). What a signal
  raises at an arbitrary moment (\<^verbatim>\<open>KeyboardInterrupt\<close>, which is no \<^verbatim>\<open>Exception\<close>) is not
  part of the model.
\<close>

datatype py_exception = Exception (str: string)

text \<open>
  What \<^verbatim>\<open>open(filepath)\<close> followed by the iteration over the file gives: either one of
  the two raises, or the whole text is decoded. The text is finite. A \<open>string\<close> is a list
  of bytes; for a text in UTF-8 the bytes \<open>CR\<close> and \<open>LF\<close> and the bytes of \<^verbatim>\<open>.py\<close> stand
  for these characters only, so that line ends and suffixes are those of the Python string.

  The world of a run: the file system, which the script only reads; the text written to
  standard output so far; the paths passed to \<^verbatim>\<open>open\<close> so far, in order.
\<close>

datatype read_result = Raises py_exception | Content string

record world =
  files :: "path \<Rightarrow> read_result"
  stdout :: string
  opened :: "path list"

type_synonym violation = "path \<times> int"

text \<open>\<^verbatim>\<open>sys.exit(code)\<close> raises \<^verbatim>\<open>SystemExit\<close>, which nothing in the script catches.\<close>

datatype 'a outcome = SystemExit int | Done 'a

subsection \<open>Library functions of Python\<close>

text \<open>\<^verbatim>\<open>s.endswith(suffix)\<close>: the last \<^verbatim>\<open>len(suffix)\<close> characters of \<^verbatim>\<open>s\<close> are \<^verbatim>\<open>suffix\<close>.\<close>

definition endswith :: "string \<Rightarrow> string \<Rightarrow> bool" where
  "endswith s sfx = (length sfx \<le> length s \<and> drop (length s - length sfx) s = sfx)"

text \<open>\<^verbatim>\<open>print(s)\<close> writes \<^verbatim>\<open>s\<close> and a newline to standard output.\<close>

definition print :: "string \<Rightarrow> world \<Rightarrow> world" where
  "print s w = w\<lparr>stdout := stdout w @ s @ [LF]\<rparr>"

text \<open>The decimal notation of an integer, as an f-string formats it.\<close>

definition digit_char :: "nat \<Rightarrow> char" where
  "digit_char d = ''0123456789'' ! d"

fun str_nat :: "nat \<Rightarrow> string" where
  "str_nat n = (if n < 10 then [digit_char n] else str_nat (n div 10) @ [digit_char (n mod 10)])"

definition str_int :: "int \<Rightarrow> string" where
  "str_int i = (if i < 0 then CHR ''-'' # str_nat (nat (- i)) else str_nat (nat i))"

text \<open>
  A file opened in text mode with the default \<^verbatim>\<open>newline=None\<close> translates the line
  endings \<^verbatim>\<open>\r\n\<close> and \<^verbatim>\<open>\r\<close> to \<^verbatim>\<open>\n\<close> (universal newlines), and iterating over it
  yields the translated text cut after every \<^verbatim>\<open>\n\<close>; what follows the last \<^verbatim>\<open>\n\<close> is
  a last line when it is not empty.
\<close>

fun universal_newlines :: "string \<Rightarrow> string" where
  "universal_newlines [] = []"
| "universal_newlines (c # cs) =
     (if c = CR then
        (case cs of
           [] \<Rightarrow> [LF]
         | d # ds \<Rightarrow> if d = LF then LF # universal_newlines ds else LF # universal_newlines cs)
      else c # universal_newlines cs)"

fun iter_lines :: "string \<Rightarrow> string \<Rightarrow> string list" where
  "iter_lines cur [] = (if cur = [] then [] else [cur])"
| "iter_lines cur (c # cs) =
     (if c = LF then (cur @ [c]) # iter_lines [] cs else iter_lines (cur @ [c]) cs)"

definition file_lines :: "string \<Rightarrow> string list" where
  "file_lines text = iter_lines [] (universal_newlines text)"

subsection \<open>The script\<close>

text \<open>\<^verbatim>\<open>sum(1 for _ in f)\<close>\<close>

definition line_count :: "string \<Rightarrow> int" where
  "line_count text = sum_list (map (\<lambda>_. 1) (file_lines text))"

text \<open>
  The \<^verbatim>\<open>with open(filepath) as f\<close> block: the path is passed to \<^verbatim>\<open>open\<close> (and logged),
  and the block either raises or binds \<^verbatim>\<open>line_count\<close>.
\<close>

definition open_and_count :: "path \<Rightarrow> world \<Rightarrow> (py_exception + int) \<times> world" where
  "open_and_count filepath w =
     (case files w filepath of
        Raises e \<Rightarrow> (Inl e, w\<lparr>opened := opened w @ [filepath]\<rparr>)
      | Content text \<Rightarrow> (Inr (line_count text), w\<lparr>opened := opened w @ [filepath]\<rparr>))"

text \<open>One iteration of the \<^verbatim>\<open>for\<close> loop.\<close>

definition loop_body :: "path \<Rightarrow> violation list \<Rightarrow> world \<Rightarrow> violation list outcome \<times> world" where
  "loop_body filepath violations w =
     (if \<not> endswith filepath ''.py'' then (Done violations, w)
      else
        (case open_and_count filepath w of
           (Inr n, w') \<Rightarrow>
             if n > 300 then (Done (violations @ [(filepath, n)]), w')
             else (Done violations, w')
         | (Inl e, w') \<Rightarrow>
             (SystemExit 1, print (''Error reading '' @ filepath @ '': '' @ str e) w')))"

fun for_loop :: "path list \<Rightarrow> violation list \<Rightarrow> world \<Rightarrow> violation list outcome \<times> world" where
  "for_loop [] violations w = (Done violations, w)"
| "for_loop (filepath # rest) violations w =
     (case loop_body filepath violations w of
        (SystemExit code, w') \<Rightarrow> (SystemExit code, w')
      | (Done violations', w') \<Rightarrow> for_loop rest violations' w')"

text \<open>The loop that prints one line for each entry of \<^verbatim>\<open>violations\<close>.\<close>

fun print_violations :: "violation list \<Rightarrow> world \<Rightarrow> world" where
  "print_violations [] w = w"
| "print_violations ((filepath, count) # rest) w =
     print_violations rest (print (''  '' @ filepath @ '': '' @ str_int count @ '' lines'') w)"

definition main :: "string list \<Rightarrow> world \<Rightarrow> unit outcome \<times> world" where
  "main argv w =
     (case for_loop (drop 1 argv) [] w of
        (SystemExit code, w') \<Rightarrow> (SystemExit code, w')
      | (Done violations, w') \<Rightarrow>
          if violations \<noteq> [] then
            (SystemExit 1,
             print_violations violations (print ''Files exceeding 300 lines:'' w'))
          else (SystemExit 0, w'))"

subsection \<open>Vocabulary of the specification\<close>

text \<open>A path qualifies when the script's test \<^verbatim>\<open>filepath.endswith('.py')\<close> holds.\<close>

abbreviation qualifies :: "path \<Rightarrow> bool" where
  "qualifies p \<equiv> endswith p ''.py''"

text \<open>A path is readable when opening and reading its file raises nothing.\<close>

definition readable :: "world \<Rightarrow> path \<Rightarrow> bool" where
  "readable w p = (case files w p of Content _ \<Rightarrow> True | Raises _ \<Rightarrow> False)"

text \<open>
  The specification's line records, in its own words: the units separated by line
  terminators (\<^verbatim>\<open>\n\<close>, \<^verbatim>\<open>\r\<close>, and \<^verbatim>\<open>\r\n\<close> as one terminator), a final partial line
  without a terminator being one more record.
\<close>

fun spec_count_terminators :: "string \<Rightarrow> nat" where
  "spec_count_terminators [] = 0"
| "spec_count_terminators (c # cs) =
     (if c = CR then
        (case cs of
           [] \<Rightarrow> 1
         | d # ds \<Rightarrow> if d = LF then 1 + spec_count_terminators ds else 1 + spec_count_terminators cs)
      else if c = LF then 1 + spec_count_terminators cs
      else spec_count_terminators cs)"

definition spec_line_records :: "string \<Rightarrow> nat" where
  "spec_line_records text =
     spec_count_terminators text +
     (if text = [] then 0 else if last text = LF then 0 else if last text = CR then 0 else 1)"

text \<open>
  The specification's violations of an input sequence: the qualifying paths whose file has
  more than 300 lines, each with its count, in the order of the input.
\<close>

definition spec_violations :: "world \<Rightarrow> path list \<Rightarrow> violation list" where
  "spec_violations w paths =
     concat (map (\<lambda>p. if qualifies p then
                         (case files w p of
                            Content text \<Rightarrow> if 300 < line_count text then [(p, line_count text)] else []
                          | Raises _ \<Rightarrow> [])
                       else []) paths)"




subsection \<open>A file system to run the script on\<close>

text \<open>
  Files of 50, 400, 300 and 301 (empty) lines, a file that is not Python, and no other
  file: opening any other path raises \<^verbatim>\<open>FileNotFoundError\<close>.
\<close>

definition example_files :: "path \<Rightarrow> read_result" where
  "example_files p =
     (if p = ''a.py'' then Content (replicate 50 LF)
      else if p = ''b.py'' then Content (replicate 400 LF)
      else if p = ''edge.py'' then Content (replicate 300 LF)
      else if p = ''big.py'' then Content (replicate 301 LF)
      else if p = ''readme.md'' then Content ''# skills''
      else Raises (Exception (''[Errno 2] No such file or directory: '' @ [CHR 0x27] @ p @ [CHR 0x27])))"

definition example_world :: world where
  "example_world = \<lparr>files = example_files, stdout = [], opened = []\<rparr>"

definition example_world2 :: world where
  "example_world2 =
     example_world\<lparr>files := (files example_world)(''other.py'' := Content ''pass''),
       opened := [''earlier.py'']\<rparr>"

definition example_mixed :: string where
  "example_mixed = ''import os'' @ [CR, LF] @ ''x = 1'' @ [CR] @ ''y = 2'' @ [LF] @ ''z = 3''"

section \<open>Auxiliary facts\<close>

lemma line_count_length: "line_count text = int (length (file_lines text))"
  by (simp add: line_count_def sum_list_triv)

lemma length_iter_lines:
  "length (iter_lines cur s) =
     length (filter (\<lambda>c. c = LF) s) +
     (if (if s = [] then cur = [] else last s = LF) then 0 else 1)"
proof (induction s arbitrary: cur)
  case Nil
  show ?case by simp
next
  case (Cons c cs)
  show ?case using Cons.IH [of "[]"] Cons.IH [of "cur @ [c]"]
    by (cases "cs = []") auto
qed

lemma universal_newlines_count:
  "length (filter (\<lambda>c. c = LF) (universal_newlines s)) = spec_count_terminators s"
proof (induction s rule: universal_newlines.induct)
  case 1
  show ?case by simp
next
  case (2 c cs)
  show ?case
  proof (cases cs)
    case Nil
    then show ?thesis by simp
  next
    case (Cons d ds)
    with 2 show ?thesis by simp
  qed
qed

lemma universal_newlines_Nil: "universal_newlines s = [] \<longleftrightarrow> s = []"
  by (cases s) (simp_all split: list.splits)

lemma universal_newlines_last:
  "s \<noteq> [] \<Longrightarrow> (last (universal_newlines s) = LF) = (last s = LF \<or> last s = CR)"
proof (induction s rule: universal_newlines.induct)
  case 1
  then show ?case by simp
next
  case (2 c cs)
  show ?case
  proof (cases cs)
    case Nil
    then show ?thesis by simp
  next
    case (Cons d ds)
    note cs = Cons
    have ne: "universal_newlines cs \<noteq> []"
      unfolding universal_newlines_Nil using cs by simp
    show ?thesis
    proof (cases "c = CR")
      case False
      have "universal_newlines (c # cs) = c # universal_newlines cs"
        using False by simp
      moreover have "(last (universal_newlines cs) = LF) = (last cs = LF \<or> last cs = CR)"
        using "2.IH"(3) False cs by simp
      ultimately show ?thesis using ne cs by simp
    next
      case True
      note c = True
      show ?thesis
      proof (cases "d = LF")
        case False
        have "universal_newlines (c # cs) = LF # universal_newlines cs"
          using c False cs by simp
        moreover have "(last (universal_newlines cs) = LF) = (last cs = LF \<or> last cs = CR)"
          using "2.IH"(2) [of d ds] c False cs by simp
        ultimately show ?thesis using ne cs by simp
      next
        case True
        have eq: "universal_newlines (c # cs) = LF # universal_newlines ds"
          using c True cs by simp
        show ?thesis
        proof (cases "ds = []")
          case True
          with eq cs \<open>d = LF\<close> show ?thesis by simp
        next
          case False
          have "(last (universal_newlines ds) = LF) = (last ds = LF \<or> last ds = CR)"
            using "2.IH"(1) [of d ds] c \<open>d = LF\<close> cs False by simp
          moreover have "universal_newlines ds \<noteq> []"
            unfolding universal_newlines_Nil using False by simp
          ultimately show ?thesis using eq cs False by simp
        qed
      qed
    qed
  qed
qed

lemma line_count_spec: "line_count text = int (spec_line_records text)"
proof (cases "text = []")
  case True
  then show ?thesis
    by (simp add: line_count_length file_lines_def spec_line_records_def)
next
  case False
  then show ?thesis
    using universal_newlines_last [OF False]
    by (simp add: line_count_length file_lines_def spec_line_records_def length_iter_lines
        universal_newlines_count universal_newlines_Nil)
qed

lemma loop_body_skip: "\<not> qualifies p \<Longrightarrow> loop_body p vs w = (Done vs, w)"
  by (simp add: loop_body_def)

lemma loop_body_counted:
  "qualifies p \<Longrightarrow> files w p = Content text \<Longrightarrow>
   loop_body p vs w =
     (Done (if 300 < line_count text then vs @ [(p, line_count text)] else vs),
      w\<lparr>opened := opened w @ [p]\<rparr>)"
  by (simp add: loop_body_def open_and_count_def)

lemma loop_body_raises:
  "qualifies p \<Longrightarrow> files w p = Raises e \<Longrightarrow>
   loop_body p vs w =
     (SystemExit 1,
      w\<lparr>stdout := stdout w @ ''Error reading '' @ p @ '': '' @ str e @ [LF],
        opened := opened w @ [p]\<rparr>)"
  by (simp add: loop_body_def open_and_count_def print_def)

lemma spec_violations_files:
  "files w' = files w \<Longrightarrow> spec_violations w' paths = spec_violations w paths"
  unfolding spec_violations_def by (erule ssubst) (rule refl)

lemma for_loop_completes:
  "\<forall>p\<in>set paths. qualifies p \<longrightarrow> readable w p \<Longrightarrow>
   for_loop paths vs w =
     (Done (vs @ spec_violations w paths),
      w\<lparr>opened := opened w @ filter qualifies paths\<rparr>)"
proof (induction paths arbitrary: vs w)
  case Nil
  show ?case by (simp add: spec_violations_def)
next
  case (Cons p ps)
  show ?case
  proof (cases "qualifies p")
    case False
    have "for_loop (p # ps) vs w = for_loop ps vs w"
      using False by (simp add: loop_body_skip)
    also have "\<dots> = (Done (vs @ spec_violations w ps), w\<lparr>opened := opened w @ filter qualifies ps\<rparr>)"
      using Cons.prems by (intro Cons.IH) simp
    finally show ?thesis using False by (simp add: spec_violations_def)
  next
    case True
    with Cons.prems have "readable w p" by simp
    then obtain body where body: "files w p = Content body"
      by (auto simp: readable_def split: read_result.splits)
    let ?w = "w\<lparr>opened := opened w @ [p]\<rparr>"
    let ?vs = "if 300 < line_count body then vs @ [(p, line_count body)] else vs"
    have fl: "files ?w = files w" by simp
    have "for_loop (p # ps) vs w = for_loop ps ?vs ?w"
      using True body by (simp only: for_loop.simps loop_body_counted prod.case outcome.case)
    also have "\<dots> = (Done (?vs @ spec_violations ?w ps), ?w\<lparr>opened := opened ?w @ filter qualifies ps\<rparr>)"
      using Cons.prems by (intro Cons.IH) (simp add: readable_def)
    also have "spec_violations ?w ps = spec_violations w ps"
      by (rule spec_violations_files) simp
    finally show ?thesis using True body
      by (simp add: spec_violations_def)
  qed
qed

lemma for_loop_aborts:
  "\<forall>q\<in>set pre. qualifies q \<longrightarrow> readable w q \<Longrightarrow> qualifies p \<Longrightarrow> files w p = Raises e \<Longrightarrow>
   for_loop (pre @ p # post) vs w =
     (SystemExit 1,
      w\<lparr>stdout := stdout w @ ''Error reading '' @ p @ '': '' @ str e @ [LF],
        opened := opened w @ filter qualifies pre @ [p]\<rparr>)"
proof (induction pre arbitrary: vs w)
  case Nil
  then show ?case by (simp add: loop_body_raises)
next
  case (Cons q qs)
  show ?case
  proof (cases "qualifies q")
    case False
    have "for_loop ((q # qs) @ p # post) vs w = for_loop (qs @ p # post) vs w"
      using False by (simp add: loop_body_skip)
    also have "\<dots> = (SystemExit 1,
      w\<lparr>stdout := stdout w @ ''Error reading '' @ p @ '': '' @ str e @ [LF],
        opened := opened w @ filter qualifies qs @ [p]\<rparr>)"
      using Cons.prems by (intro Cons.IH) simp_all
    finally show ?thesis using False by simp
  next
    case True
    with Cons.prems have "readable w q" by simp
    then obtain body where body: "files w q = Content body"
      by (auto simp: readable_def split: read_result.splits)
    let ?w = "w\<lparr>opened := opened w @ [q]\<rparr>"
    let ?vs = "if 300 < line_count body then vs @ [(q, line_count body)] else vs"
    have "for_loop ((q # qs) @ p # post) vs w = for_loop (qs @ p # post) ?vs ?w"
      using True body by (simp only: append_Cons for_loop.simps loop_body_counted prod.case outcome.case)
    also have "\<dots> = (SystemExit 1,
      ?w\<lparr>stdout := stdout ?w @ ''Error reading '' @ p @ '': '' @ str e @ [LF],
        opened := opened ?w @ filter qualifies qs @ [p]\<rparr>)"
      using Cons.prems by (intro Cons.IH) (simp_all add: readable_def)
    finally show ?thesis using True by simp
  qed
qed

lemma first_unreadable:
  assumes "p \<in> set paths" "qualifies p" "\<not> readable w p"
  shows "\<exists>pre q post. paths = pre @ q # post \<and> qualifies q \<and> \<not> readable w q \<and>
           (\<forall>r\<in>set pre. qualifies r \<longrightarrow> readable w r)"
proof -
  from assms have "\<exists>x\<in>set paths. qualifies x \<and> \<not> readable w x" by blast
  then obtain pre q post where "paths = pre @ q # post" "qualifies q \<and> \<not> readable w q"
      "\<forall>r\<in>set pre. \<not> (qualifies r \<and> \<not> readable w r)"
    by (auto dest!: split_list_first_prop)
  then show ?thesis by blast
qed

lemma print_violations_stdout:
  "print_violations vs w =
     w\<lparr>stdout := stdout w @
        concat (map (\<lambda>(p, n). ''  '' @ p @ '': '' @ str_int n @ '' lines'' @ [LF]) vs)\<rparr>"
  by (induction vs arbitrary: w) (auto simp: print_def)

lemma universal_newlines_replicate_LF: "universal_newlines (replicate n LF) = replicate n LF"
  by (induction n) simp_all

lemma line_count_replicate_LF: "line_count (replicate n LF) = int n"
  by (cases n) (simp_all add: line_count_length file_lines_def length_iter_lines universal_newlines_replicate_LF)

lemma for_loop_Done_readable:
  assumes "for_loop paths vs w = (Done vs', w')"
  shows "\<forall>p\<in>set paths. qualifies p \<longrightarrow> readable w p"
proof (rule ccontr)
  assume "\<not> (\<forall>p\<in>set paths. qualifies p \<longrightarrow> readable w p)"
  then obtain p where "p \<in> set paths" "qualifies p" "\<not> readable w p" by blast
  from first_unreadable [OF this] obtain pre q post where
    d: "paths = pre @ q # post" "qualifies q" "\<not> readable w q"
       "\<forall>r\<in>set pre. qualifies r \<longrightarrow> readable w r" by blast
  from d(3) obtain e where "files w q = Raises e"
    by (auto simp: readable_def split: read_result.splits)
  from for_loop_aborts [OF d(4) d(2) this, of post vs] d(1) assms show False by simp
qed

lemma for_loop_Done:
  assumes "for_loop paths vs w = (Done vs', w')"
  shows "vs' = vs @ spec_violations w paths" and "w' = w\<lparr>opened := opened w @ filter qualifies paths\<rparr>"
  using for_loop_completes [OF for_loop_Done_readable [OF assms], of vs] assms by simp_all


lemma main_aborts:
  assumes "\<forall>q\<in>set pre. qualifies q \<longrightarrow> readable w q" "qualifies p" "files w p = Raises e"
    and "drop 1 argv = pre @ p # post"
  shows "main argv w =
           (SystemExit 1,
            w\<lparr>stdout := stdout w @ ''Error reading '' @ p @ '': '' @ str e @ [LF],
              opened := opened w @ filter qualifies pre @ [p]\<rparr>)"
  using for_loop_aborts [OF assms(1-3), of post "[]"] assms(4) by (simp add: main_def)

lemma main_completes:
  assumes "\<forall>p\<in>set (drop 1 argv). qualifies p \<longrightarrow> readable w p"
  shows "main argv w =
           (if spec_violations w (drop 1 argv) \<noteq> [] then
              (SystemExit 1,
               w\<lparr>stdout := stdout w @ ''Files exceeding 300 lines:'' @ [LF] @
                    concat (map (\<lambda>(p, n). ''  '' @ p @ '': '' @ str_int n @ '' lines'' @ [LF])
                      (spec_violations w (drop 1 argv))),
                 opened := opened w @ filter qualifies (drop 1 argv)\<rparr>)
            else (SystemExit 0, w\<lparr>opened := opened w @ filter qualifies (drop 1 argv)\<rparr>))"
  using for_loop_completes [OF assms, of "[]"]
  by (simp add: main_def print_violations_stdout print_def)

lemma run_missing_file:
  "main [''check_file_length.py'', ''b.py'', ''missing.py'', ''a.py''] example_world =
     (SystemExit 1,
      \<lparr>files = example_files,
       stdout = ''Error reading missing.py: [Errno 2] No such file or directory: '' @ [CHR 0x27] @ ''missing.py'' @ [CHR 0x27, LF],
       opened = [''b.py'', ''missing.py'']\<rparr>)"
  by (simp add: main_def loop_body_def open_and_count_def print_def endswith_def
      example_world_def example_files_def line_count_replicate_LF)



lemma clean_scan:
  "for_loop (drop 1 [''check_file_length.py'', ''a.py'', ''readme.md'', ''edge.py'']) []
     example_world =
   (Done [], example_world\<lparr>opened := [''a.py'', ''edge.py'']\<rparr>)"
  by (simp add: loop_body_def open_and_count_def endswith_def
      example_world_def example_files_def line_count_replicate_LF)

lemma files_loop_body: "files (snd (loop_body p vs w)) = files w"
  by (simp add: loop_body_def open_and_count_def print_def split: read_result.splits)

lemma loop_body_agree:
  assumes "qualifies p \<longrightarrow> files w2 p = files w1 p" and "stdout w2 = stdout w1"
  shows "fst (loop_body p vs w2) = fst (loop_body p vs w1) \<and>
         stdout (snd (loop_body p vs w2)) = stdout (snd (loop_body p vs w1))"
  using assms
  by (simp add: loop_body_def open_and_count_def print_def split: read_result.splits)

lemma for_loop_agree:
  assumes "\<forall>p\<in>set paths. qualifies p \<longrightarrow> files w2 p = files w1 p" and "stdout w2 = stdout w1"
  shows "fst (for_loop paths vs w2) = fst (for_loop paths vs w1) \<and>
         stdout (snd (for_loop paths vs w2)) = stdout (snd (for_loop paths vs w1))"
  using assms
proof (induction paths arbitrary: vs w1 w2)
  case Nil
  then show ?case by simp
next
  case (Cons p ps)
  obtain r1 u1 where b1: "loop_body p vs w1 = (r1, u1)" by (cases "loop_body p vs w1")
  obtain r2 u2 where b2: "loop_body p vs w2 = (r2, u2)" by (cases "loop_body p vs w2")
  have "qualifies p \<longrightarrow> files w2 p = files w1 p" using Cons.prems(1) by simp
  from loop_body_agree [OF this Cons.prems(2), of vs] b1 b2
  have r: "r2 = r1" and s: "stdout u2 = stdout u1" by simp_all
  have fu1: "files u1 = files w1" using files_loop_body [of p vs w1] b1 by simp
  have fu2: "files u2 = files w2" using files_loop_body [of p vs w2] b2 by simp
  show ?case
  proof (cases r1)
    case (SystemExit c)
    with b1 b2 r s show ?thesis by simp
  next
    case (Done vs')
    have "\<forall>q\<in>set ps. qualifies q \<longrightarrow> files u2 q = files u1 q"
      using Cons.prems(1) fu1 fu2 by simp
    from Cons.IH [OF this s, of vs'] b1 b2 r Done show ?thesis by simp
  qed
qed

lemma files_for_loop: "files (snd (for_loop paths vs w)) = files w"
proof (induction paths arbitrary: vs w)
  case Nil
  show ?case by simp
next
  case (Cons p ps)
  obtain r u where b: "loop_body p vs w = (r, u)" by (cases "loop_body p vs w")
  have "files u = files w" using files_loop_body [of p vs w] b by simp
  with Cons.IH [of _ u] b show ?case by (cases r) simp_all
qed

lemma files_print_violations: "files (print_violations vs w) = files w"
  by (simp add: print_violations_stdout)

lemma files_main: "files (snd (main argv w)) = files w"
proof -
  obtain r u where b: "for_loop (drop 1 argv) [] w = (r, u)"
    by (cases "for_loop (drop 1 argv) [] w")
  have "files u = files w" using files_for_loop [of "drop 1 argv" "[]" w] b by simp
  with b show ?thesis
    by (cases r) (simp_all add: main_def files_print_violations print_def)
qed



lemma for_loop_filter: "for_loop (filter qualifies paths) vs w = for_loop paths vs w"
  by (induction paths arbitrary: vs w)
    (simp_all add: loop_body_skip split: prod.splits outcome.splits)

lemma qualifies_iff: "qualifies p \<longleftrightarrow> (\<exists>stem. p = stem @ ''.py'')"
proof
  assume q: "qualifies p"
  then have "drop (length p - 3) p = ''.py''" by (simp add: endswith_def numeral_3_eq_3)
  then have "p = take (length p - 3) p @ ''.py''"
    using append_take_drop_id [of "length p - 3" p] by simp
  then show "\<exists>stem. p = stem @ ''.py''" ..
next
  assume "\<exists>stem. p = stem @ ''.py''"
  then show "qualifies p" by (auto simp: endswith_def)
qed

lemma opened_main:
  "opened (snd (main argv w)) =
     opened w @ takeWhile (readable w) (filter qualifies (drop 1 argv)) @
     take 1 (dropWhile (readable w) (filter qualifies (drop 1 argv)))"
proof (cases "\<forall>p\<in>set (drop 1 argv). qualifies p \<longrightarrow> readable w p")
  case True
  then have "\<forall>p\<in>set (filter qualifies (drop 1 argv)). readable w p" by simp
  then have tw: "takeWhile (readable w) (filter qualifies (drop 1 argv)) = filter qualifies (drop 1 argv)"
    and dw: "dropWhile (readable w) (filter qualifies (drop 1 argv)) = []"
    by simp_all
  show ?thesis unfolding tw dw using True by (simp add: main_completes)
next
  case False
  then obtain q where "q \<in> set (drop 1 argv)" "qualifies q" "\<not> readable w q" by blast
  from first_unreadable [OF this] obtain pre r post where
    d: "drop 1 argv = pre @ r # post" "qualifies r" "\<not> readable w r"
       "\<forall>x\<in>set pre. qualifies x \<longrightarrow> readable w x" by blast
  from d(3) obtain e where e: "files w r = Raises e"
    by (auto simp: readable_def split: read_result.splits)
  have f: "filter qualifies (drop 1 argv) = filter qualifies pre @ r # filter qualifies post"
    using d(1,2) by simp
  have tw: "takeWhile (readable w) (filter qualifies pre @ r # filter qualifies post) =
      filter qualifies pre @ takeWhile (readable w) (r # filter qualifies post)"
    by (rule takeWhile_append2) (use d(4) in simp)
  have dw: "dropWhile (readable w) (filter qualifies pre @ r # filter qualifies post) =
      dropWhile (readable w) (r # filter qualifies post)"
    by (rule dropWhile_append2) (use d(4) in simp)
  have "takeWhile (readable w) (filter qualifies (drop 1 argv)) = filter qualifies pre"
    unfolding f tw using d(3) by simp
  moreover have "take 1 (dropWhile (readable w) (filter qualifies (drop 1 argv))) = [r]"
    unfolding f dw using d(3) by simp
  ultimately show ?thesis using main_aborts [OF d(4) d(2) e d(1)] by simp
qed

lemma main_filter: "main (take 1 argv @ filter qualifies (drop 1 argv)) w = main argv w"
proof (cases argv)
  case Nil
  then show ?thesis by simp
next
  case (Cons a rest)
  then show ?thesis by (simp add: main_def for_loop_filter)
qed




lemma opened_step:
  "opened (snd (for_loop (pre @ [p]) vs w)) =
     opened (snd (for_loop pre vs w)) @
     (if qualifies p \<and> (\<forall>q\<in>set pre. qualifies q \<longrightarrow> readable w q) then [p] else [])"
proof (cases "\<forall>q\<in>set pre. qualifies q \<longrightarrow> readable w q")
  case True
  note pre = for_loop_completes [OF True, of vs]
  show ?thesis
  proof (cases "qualifies p")
    case False
    with True have "\<forall>q\<in>set (pre @ [p]). qualifies q \<longrightarrow> readable w q" by simp
    from for_loop_completes [OF this, of vs] pre False show ?thesis by simp
  next
    case q: True
    show ?thesis
    proof (cases "readable w p")
      case True
      with \<open>\<forall>q\<in>set pre. qualifies q \<longrightarrow> readable w q\<close>
      have "\<forall>q\<in>set (pre @ [p]). qualifies q \<longrightarrow> readable w q" by simp
      from for_loop_completes [OF this, of vs] pre q
        \<open>\<forall>q\<in>set pre. qualifies q \<longrightarrow> readable w q\<close> show ?thesis by simp
    next
      case False
      then obtain e where "files w p = Raises e"
        by (auto simp: readable_def split: read_result.splits)
      from for_loop_aborts [OF True q this, of "[]" vs] pre q True show ?thesis by simp
    qed
  qed
next
  case False
  then obtain q where "q \<in> set pre" "qualifies q" "\<not> readable w q" by blast
  from first_unreadable [OF this] obtain a r b where
    d: "pre = a @ r # b" "qualifies r" "\<not> readable w r"
       "\<forall>x\<in>set a. qualifies x \<longrightarrow> readable w x" by blast
  from d(3) obtain e where e: "files w r = Raises e"
    by (auto simp: readable_def split: read_result.splits)
  from for_loop_aborts [OF d(4) d(2) e, of b vs] for_loop_aborts [OF d(4) d(2) e, of "b @ [p]" vs]
    d(1) False show ?thesis by simp
qed

section \<open>The claims\<close>







text \<open>
  C4, as stated, fails: after a qualifying path whose read fails the run is over, and a
  later path ending in \<^verbatim>\<open>.py\<close> is never opened, although its file exists.
\<close>

theorem suffix_filter_counterexample:
  "qualifies ''b.py'' \<and>
   ''b.py'' \<in> set (drop 1 [''check_file_length.py'', ''missing.py'', ''b.py'']) \<and>
   files example_world ''b.py'' = Content (replicate 400 LF) \<and>
   ''b.py'' \<notin> set (opened (snd (main [''check_file_length.py'', ''missing.py'', ''b.py''] example_world))) \<and>
   stdout (snd (main [''check_file_length.py'', ''missing.py'', ''b.py''] example_world)) =
     ''Error reading missing.py: [Errno 2] No such file or directory: '' @ [CHR 0x27] @ ''missing.py'' @ [CHR 0x27, LF]"
  by (simp add: main_def loop_body_def open_and_count_def print_def endswith_def
      example_world_def example_files_def)

text \<open>
  C4, amended. A path of the input is opened exactly when it ends with the literal suffix
  \<^verbatim>\<open>.py\<close> and no qualifying path before it failed to be read (and it is counted when,
  moreover, its own read succeeds): the scan of \<open>pre @ [p]\<close> opens \<open>p\<close> after what the
  scan of \<open>pre\<close> opens in that case and in no other, so that the files a run opens are, in
  order, the qualifying paths up to and including the first unreadable one, and all the
  qualifying paths when every one of them is readable. Nothing but a qualifying path is ever
  opened, and a path that does not qualify has no effect at all: the run on the input
  without the non-qualifying paths ends in the same exit status and the same world.
\<close>

theorem suffix_filter:
  "opened (snd (for_loop (pre @ [p]) [] w)) =
     opened (snd (for_loop pre [] w)) @
     (if qualifies p \<and> (\<forall>q\<in>set pre. qualifies q \<longrightarrow> readable w q) then [p] else []) \<and>
   opened (snd (main argv w)) =
     opened w @ takeWhile (readable w) (filter qualifies (drop 1 argv)) @
     take 1 (dropWhile (readable w) (filter qualifies (drop 1 argv))) \<and>
   (\<forall>p\<in>set (opened (snd (main argv w))). p \<in> set (opened w) \<or> qualifies p) \<and>
   ((\<forall>p\<in>set (drop 1 argv). qualifies p \<longrightarrow> readable w p) \<longrightarrow>
      opened (snd (main argv w)) = opened w @ filter qualifies (drop 1 argv)) \<and>
   main argv w = main (take 1 argv @ filter qualifies (drop 1 argv)) w \<and>
   (qualifies p \<longleftrightarrow> (\<exists>stem. p = stem @ ''.py''))"
proof (intro conjI impI ballI)
  show "opened (snd (for_loop (pre @ [p]) [] w)) =
     opened (snd (for_loop pre [] w)) @
     (if qualifies p \<and> (\<forall>q\<in>set pre. qualifies q \<longrightarrow> readable w q) then [p] else [])"
    by (rule opened_step)
next
  show "opened (snd (main argv w)) =
     opened w @ takeWhile (readable w) (filter qualifies (drop 1 argv)) @
     take 1 (dropWhile (readable w) (filter qualifies (drop 1 argv)))"
    by (rule opened_main)
next
  fix x assume "x \<in> set (opened (snd (main argv w)))"
  then have "x \<in> set (opened w) \<or>
      x \<in> set (takeWhile (readable w) (filter qualifies (drop 1 argv))) \<or>
      x \<in> set (take 1 (dropWhile (readable w) (filter qualifies (drop 1 argv))))"
    by (simp add: opened_main)
  moreover have "x \<in> set (takeWhile (readable w) (filter qualifies (drop 1 argv))) \<Longrightarrow> qualifies x"
    using set_takeWhileD [of x "readable w" "filter qualifies (drop 1 argv)"] by simp
  moreover have "x \<in> set (take 1 (dropWhile (readable w) (filter qualifies (drop 1 argv)))) \<Longrightarrow> qualifies x"
    using in_set_takeD [of x 1] set_dropWhileD [of x "readable w" "filter qualifies (drop 1 argv)"]
    by fastforce
  ultimately show "x \<in> set (opened w) \<or> qualifies x" by blast
next
  assume "\<forall>p\<in>set (drop 1 argv). qualifies p \<longrightarrow> readable w p"
  then show "opened (snd (main argv w)) = opened w @ filter qualifies (drop 1 argv)"
    by (simp add: main_completes)
next
  show "main argv w = main (take 1 argv @ filter qualifies (drop 1 argv)) w"
    by (rule main_filter [symmetric])
  show "qualifies p \<longleftrightarrow> (\<exists>stem. p = stem @ ''.py'')" by (rule qualifies_iff)
qed

theorem suffix_filter_witness:
  "opened (snd (main [''check_file_length.py'', ''readme.md'', ''a.py'', ''A.PY'', ''missing.py'', ''b.py'']
     example_world)) = [''a.py'', ''missing.py''] \<and>
   main [''check_file_length.py'', ''readme.md'', ''a.py'', ''A.PY'', ''missing.py'', ''b.py''] example_world =
     main [''check_file_length.py'', ''a.py'', ''missing.py'', ''b.py''] example_world \<and>
   qualifies ''a.py'' \<and> \<not> qualifies ''A.PY'' \<and> \<not> qualifies ''readme.md''"
proof -
  have r: "readable example_world ''a.py''" "\<not> readable example_world ''missing.py''"
    by (simp_all add: readable_def example_world_def example_files_def)
  have q: "qualifies ''a.py''" "\<not> qualifies ''A.PY''" "\<not> qualifies ''readme.md''"
    "qualifies ''missing.py''" "qualifies ''b.py''"
    by (simp_all add: endswith_def)
  from suffix_filter [where w = example_world and
      argv = "[''check_file_length.py'', ''readme.md'', ''a.py'', ''A.PY'', ''missing.py'', ''b.py'']"]
  have "opened (snd (main [''check_file_length.py'', ''readme.md'', ''a.py'', ''A.PY'', ''missing.py'', ''b.py'']
     example_world)) =
     opened example_world @
       takeWhile (readable example_world)
         (filter qualifies (drop 1 [''check_file_length.py'', ''readme.md'', ''a.py'', ''A.PY'', ''missing.py'', ''b.py''])) @
       take 1 (dropWhile (readable example_world)
         (filter qualifies (drop 1 [''check_file_length.py'', ''readme.md'', ''a.py'', ''A.PY'', ''missing.py'', ''b.py''])))"
    and "main [''check_file_length.py'', ''readme.md'', ''a.py'', ''A.PY'', ''missing.py'', ''b.py''] example_world =
     main (take 1 [''check_file_length.py'', ''readme.md'', ''a.py'', ''A.PY'', ''missing.py'', ''b.py''] @
       filter qualifies (drop 1 [''check_file_length.py'', ''readme.md'', ''a.py'', ''A.PY'', ''missing.py'', ''b.py'']))
       example_world"
    by blast+
  then have "opened (snd (main [''check_file_length.py'', ''readme.md'', ''a.py'', ''A.PY'', ''missing.py'', ''b.py'']
     example_world)) = [''a.py'', ''missing.py'']"
    and "main [''check_file_length.py'', ''readme.md'', ''a.py'', ''A.PY'', ''missing.py'', ''b.py''] example_world =
     main [''check_file_length.py'', ''a.py'', ''missing.py'', ''b.py''] example_world"
    using r q by (simp_all add: example_world_def)
  with q show ?thesis by (intro conjI)
qed

text \<open>
  C5. When the scan completes with no violation, nothing is printed and the exit status
  is 0; so it is for an input without any path ending in \<^verbatim>\<open>.py\<close>, which leaves the
  world as it was, and for the empty input.
\<close>

theorem clean_run:
  "(for_loop (drop 1 argv) [] w = (Done [], w') \<longrightarrow>
      main argv w = (SystemExit 0, w') \<and> stdout w' = stdout w) \<and>
   (filter qualifies (drop 1 argv) = [] \<longrightarrow> main argv w = (SystemExit 0, w)) \<and>
   (drop 1 argv = [] \<longrightarrow> main argv w = (SystemExit 0, w))"
proof (intro conjI impI)
  assume run: "for_loop (drop 1 argv) [] w = (Done [], w')"
  then show "main argv w = (SystemExit 0, w')" by (simp add: main_def)
  show "stdout w' = stdout w" using for_loop_Done(2) [OF run] by simp
next
  assume none: "filter qualifies (drop 1 argv) = []"
  then have "\<forall>p\<in>set (drop 1 argv). qualifies p \<longrightarrow> readable w p"
    by (auto simp: filter_empty_conv)
  moreover have "spec_violations w (drop 1 argv) = []"
    using none by (auto simp: spec_violations_def filter_empty_conv)
  ultimately show "main argv w = (SystemExit 0, w)"
    using none by (simp add: main_completes)
next
  assume "drop 1 argv = []"
  then show "main argv w = (SystemExit 0, w)" by (simp add: main_def)
qed

theorem clean_run_witness:
  "for_loop (drop 1 [''check_file_length.py'', ''a.py'', ''readme.md'', ''edge.py'']) []
     example_world =
   (Done [], example_world\<lparr>opened := [''a.py'', ''edge.py'']\<rparr>) \<and>
   main [''check_file_length.py'', ''a.py'', ''readme.md'', ''edge.py''] example_world =
     (SystemExit 0, \<lparr>files = example_files, stdout = [], opened = [''a.py'', ''edge.py'']\<rparr>) \<and>
   filter qualifies (drop 1 [''check_file_length.py'', ''readme.md'', ''setup.cfg'', ''A.PY'']) = [] \<and>
   main [''check_file_length.py'', ''readme.md'', ''setup.cfg'', ''A.PY''] example_world =
     (SystemExit 0, example_world) \<and>
   drop 1 [''check_file_length.py''] = [] \<and>
   main [''check_file_length.py''] example_world = (SystemExit 0, example_world)"
proof -
  have none: "filter qualifies (drop 1 [''check_file_length.py'', ''readme.md'', ''setup.cfg'', ''A.PY'']) = []"
    by (simp add: endswith_def)
  have empty: "drop 1 [''check_file_length.py''] = []" by simp
  show ?thesis
    using clean_run [of "[''check_file_length.py'', ''a.py'', ''readme.md'', ''edge.py'']"
        example_world "example_world\<lparr>opened := [''a.py'', ''edge.py'']\<rparr>"]
      clean_run [of "[''check_file_length.py'', ''readme.md'', ''setup.cfg'', ''A.PY'']" example_world]
      clean_run [of "[''check_file_length.py'']" example_world]
      clean_scan none empty
    by (simp add: example_world_def)
qed




text \<open>
  C7. The count computed for a file that is read successfully is the number of line
  records of its text in the specification's sense (terminators, plus one for a final
  partial line); it is not negative, and it is 0 for the empty file.
\<close>

theorem line_count_records:
  assumes "files w p = Content body"
  shows "fst (open_and_count p w) = Inr (line_count body) \<and>
         line_count body = int (spec_line_records body) \<and>
         0 \<le> line_count body \<and> line_count [] = 0"
  using assms by (simp add: open_and_count_def line_count_spec spec_line_records_def)

theorem line_count_records_witness:
  "files (example_world\<lparr>files := (files example_world)(''mixed.py'' := Content example_mixed)\<rparr>)
     ''mixed.py'' = Content example_mixed \<and>
   fst (open_and_count ''mixed.py''
     (example_world\<lparr>files := (files example_world)(''mixed.py'' := Content example_mixed)\<rparr>)) = Inr 4 \<and>
   spec_line_records example_mixed = 4 \<and>
   file_lines example_mixed = [''import os'' @ [LF], ''x = 1'' @ [LF], ''y = 2'' @ [LF], ''z = 3'']"
proof -
  let ?w = "example_world\<lparr>files := (files example_world)(''mixed.py'' := Content example_mixed)\<rparr>"
  have f: "files ?w ''mixed.py'' = Content example_mixed" by simp
  have r: "spec_line_records example_mixed = 4"
    by (simp add: spec_line_records_def example_mixed_def)
  have l: "file_lines example_mixed = [''import os'' @ [LF], ''x = 1'' @ [LF], ''y = 2'' @ [LF], ''z = 3'']"
    by (simp add: file_lines_def example_mixed_def)
  from line_count_records [OF f] have "fst (open_and_count ''mixed.py'' ?w) = Inr 4"
    by (simp add: r)
  with f r l show ?thesis by (intro conjI)
qed



text \<open>
  C9. Two runs on the same arguments, started with the same standard output, in worlds
  whose file systems agree on the qualifying paths of the arguments, end with the same
  exit status and the same standard output; and a run leaves the file system as it was.
\<close>

theorem deterministic:
  assumes "\<forall>p\<in>set (drop 1 argv). qualifies p \<longrightarrow> files w2 p = files w1 p"
    and "stdout w2 = stdout w1"
  shows "fst (main argv w2) = fst (main argv w1) \<and>
         stdout (snd (main argv w2)) = stdout (snd (main argv w1)) \<and>
         files (snd (main argv w1)) = files w1"
proof -
  obtain r1 u1 where b1: "for_loop (drop 1 argv) [] w1 = (r1, u1)"
    by (cases "for_loop (drop 1 argv) [] w1")
  obtain r2 u2 where b2: "for_loop (drop 1 argv) [] w2 = (r2, u2)"
    by (cases "for_loop (drop 1 argv) [] w2")
  from for_loop_agree [OF assms, of "[]"] b1 b2
  have r: "r2 = r1" and s: "stdout u2 = stdout u1" by simp_all
  have "fst (main argv w2) = fst (main argv w1) \<and>
         stdout (snd (main argv w2)) = stdout (snd (main argv w1))"
    using b1 b2 r s by (cases r1) (simp_all add: main_def print_violations_stdout print_def)
  then show ?thesis by (simp add: files_main)
qed

theorem deterministic_witness:
  "files example_world2 ''other.py'' \<noteq> files example_world ''other.py'' \<and>
   opened example_world2 \<noteq> opened example_world \<and>
   stdout example_world2 = stdout example_world \<and>
   fst (main [''check_file_length.py'', ''a.py'', ''b.py''] example_world2) =
     fst (main [''check_file_length.py'', ''a.py'', ''b.py''] example_world) \<and>
   stdout (snd (main [''check_file_length.py'', ''a.py'', ''b.py''] example_world2)) =
     stdout (snd (main [''check_file_length.py'', ''a.py'', ''b.py''] example_world)) \<and>
   files (snd (main [''check_file_length.py'', ''a.py'', ''b.py''] example_world)) =
     files example_world"
proof -
  have agree: "\<forall>p\<in>set (drop 1 [''check_file_length.py'', ''a.py'', ''b.py'']).
      qualifies p \<longrightarrow> files example_world2 p = files example_world p"
    by (simp add: example_world2_def)
  have out: "stdout example_world2 = stdout example_world"
    by (simp add: example_world2_def)
  have other: "files example_world2 ''other.py'' \<noteq> files example_world ''other.py''"
    by (simp add: example_world2_def example_world_def example_files_def)
  have log: "opened example_world2 \<noteq> opened example_world"
    by (simp add: example_world2_def example_world_def)
  from deterministic [OF agree out] other log out show ?thesis by (intro conjI) simp_all
qed



end
